theory Spec2Isabelle
  imports Complex_Main "HOL-Library.Word"
begin

section \<open>Binary64 arithmetic as used by the profiler\<close>

text \<open>
  \<^verbatim>\<open>double_t\<close> is taken to be IEEE 754 binary64 with the default rounding mode
  (round to nearest, ties to even). A value is a NaN, an infinity, or a finite number
  given by its exact rational value. The sign of zero is not represented: the profiler
  only divides by numbers converted from integers (never a negative zero), compares
  with \<^verbatim>\<open>==\<close>, \<^verbatim>\<open><\<close>, \<^verbatim>\<open>>\<close>, \<^verbatim>\<open><=\<close>, \<^verbatim>\<open>>=\<close> (which do not tell the zeros apart) and never looks at
  a sign bit, so both zeros behave alike in every expression of the source. A finite
  value \<open>Fin r\<close> is a double when \<open>r\<close> is representable; every arithmetic operation
  rounds its exact result with \<open>rnd\<close>.
\<close>

datatype double = NaN | PInf | NInf | Fin rat

text \<open>
  \<open>binexp n x\<close> is the binary exponent \<open>\<lfloor>log\<^sub>2 x\<rfloor>\<close> of a positive rational, found by
  repeated halving or doubling; \<open>n\<close> bounds the number of steps, and 1100 steps cover
  the whole exponent range of binary64 (\<open>-1074 \<dots> 1023\<close>, clamped at \<open>-1022\<close> below).
\<close>

fun binexp :: "nat \<Rightarrow> rat \<Rightarrow> int" where
  "binexp 0 x = 0"
| "binexp (Suc n) x =
     (if 2 \<le> x then binexp n (x / 2) + 1
      else if x < 1 then binexp n (x * 2) - 1
      else 0)"

definition pow2 :: "int \<Rightarrow> rat" where
  "pow2 e = (if 0 \<le> e then 2 ^ nat e else 1 / 2 ^ nat (- e))"

definition round_half_even :: "rat \<Rightarrow> int" where
  "round_half_even q =
     (let f = \<lfloor>q\<rfloor>; d = q - of_int f
      in if d < 1 / 2 then f
         else if 1 / 2 < d then f + 1
         else if even f then f else f + 1)"

text \<open>
  Rounding of an exact result to binary64. The spacing of doubles around \<open>x\<close> is
  \<open>2\<^sup>e\<^sup>-\<^sup>5\<^sup>2\<close> for the exponent \<open>e\<close> of \<open>x\<close> (at least \<open>-1022\<close>: below that the subnormal
  spacing \<open>2\<^sup>-\<^sup>1\<^sup>0\<^sup>7\<^sup>4\<close> applies); \<open>x\<close> goes to the nearest multiple of the spacing, a tie
  to the even one, and to an infinity when the result reaches \<open>2\<^sup>1\<^sup>0\<^sup>2\<^sup>4\<close>.
\<close>

definition spacing :: "rat \<Rightarrow> rat" where
  "spacing x = pow2 (max (binexp 1100 \<bar>x\<bar>) (- 1022) - 52)"

definition nearest :: "rat \<Rightarrow> rat" where
  "nearest x = of_int (round_half_even (x / spacing x)) * spacing x"

definition rnd :: "rat \<Rightarrow> double" where
  "rnd x =
     (let r = nearest x
      in if 2 ^ 1024 \<le> r then PInf
         else if r \<le> - (2 ^ 1024) then NInf
         else Fin r)"

fun fneg :: "double \<Rightarrow> double" where
  "fneg NaN = NaN"
| "fneg PInf = NInf"
| "fneg NInf = PInf"
| "fneg (Fin a) = Fin (- a)"

fun fadd :: "double \<Rightarrow> double \<Rightarrow> double" where
  "fadd NaN _ = NaN"
| "fadd _ NaN = NaN"
| "fadd PInf NInf = NaN"
| "fadd NInf PInf = NaN"
| "fadd PInf _ = PInf"
| "fadd _ PInf = PInf"
| "fadd NInf _ = NInf"
| "fadd _ NInf = NInf"
| "fadd (Fin a) (Fin b) = rnd (a + b)"

definition fsub :: "double \<Rightarrow> double \<Rightarrow> double" where
  "fsub a b = fadd a (fneg b)"

fun fmul :: "double \<Rightarrow> double \<Rightarrow> double" where
  "fmul NaN _ = NaN"
| "fmul _ NaN = NaN"
| "fmul (Fin a) (Fin b) = rnd (a * b)"
| "fmul (Fin a) PInf = (if a = 0 then NaN else if 0 < a then PInf else NInf)"
| "fmul (Fin a) NInf = (if a = 0 then NaN else if 0 < a then NInf else PInf)"
| "fmul PInf (Fin b) = (if b = 0 then NaN else if 0 < b then PInf else NInf)"
| "fmul NInf (Fin b) = (if b = 0 then NaN else if 0 < b then NInf else PInf)"
| "fmul PInf PInf = PInf"
| "fmul NInf NInf = PInf"
| "fmul PInf NInf = NInf"
| "fmul NInf PInf = NInf"

text \<open>
  Division. A zero divisor is a positive zero (see above): \<open>0 / 0\<close> is a NaN, a non-zero
  number over zero is the infinity of its sign.
\<close>

fun fdiv :: "double \<Rightarrow> double \<Rightarrow> double" where
  "fdiv NaN _ = NaN"
| "fdiv _ NaN = NaN"
| "fdiv (Fin a) (Fin b) =
     (if b = 0 then (if a = 0 then NaN else if 0 < a then PInf else NInf)
      else rnd (a / b))"
| "fdiv (Fin a) PInf = Fin 0"
| "fdiv (Fin a) NInf = Fin 0"
| "fdiv PInf (Fin b) = (if 0 \<le> b then PInf else NInf)"
| "fdiv NInf (Fin b) = (if 0 \<le> b then NInf else PInf)"
| "fdiv PInf _ = NaN"
| "fdiv NInf _ = NaN"

text \<open>Comparisons: every comparison with a NaN is false.\<close>

fun flt :: "double \<Rightarrow> double \<Rightarrow> bool" where
  "flt (Fin a) (Fin b) = (a < b)"
| "flt NInf (Fin b) = True"
| "flt NInf PInf = True"
| "flt (Fin a) PInf = True"
| "flt _ _ = False"

definition feq :: "double \<Rightarrow> double \<Rightarrow> bool" where
  "feq a b = (a \<noteq> NaN \<and> a = b)"

definition fle :: "double \<Rightarrow> double \<Rightarrow> bool" where
  "fle a b = (flt a b \<or> feq a b)"

definition fgt :: "double \<Rightarrow> double \<Rightarrow> bool" where
  "fgt a b = flt b a"

definition fge :: "double \<Rightarrow> double \<Rightarrow> bool" where
  "fge a b = fle b a"

text \<open>
  Conversions. \<^verbatim>\<open>double_t(n)\<close> rounds the integer; \<^verbatim>\<open>int64_t(x)\<close> truncates towards
  zero and is undefined (\<open>None\<close>) for a NaN, an infinity or a value out of range.
\<close>

definition i64_to_double :: "64 word \<Rightarrow> double" where
  "i64_to_double w = rnd (of_int (sint w))"

definition u64_to_double :: "64 word \<Rightarrow> double" where
  "u64_to_double w = rnd (of_int (uint w))"

fun double_to_i64 :: "double \<Rightarrow> 64 word option" where
  "double_to_i64 (Fin a) =
     (let t = (if 0 \<le> a then \<lfloor>a\<rfloor> else \<lceil>a\<rceil>)
      in if - (2 ^ 63) \<le> t \<and> t < 2 ^ 63 then Some (word_of_int t) else None)"
| "double_to_i64 _ = None"

section \<open>The accumulator (\<^verbatim>\<open>util::profiler\<close>)\<close>

text \<open>
  \<^verbatim>\<open>std::chrono::nanoseconds\<close> is a signed 64-bit tick count and \<^verbatim>\<open>size_t\<close> an unsigned
  64-bit integer: both are \<open>64 word\<close>, with wrap-around arithmetic (also where a signed
  overflow would be undefined in C++); a duration is read with \<open>sint\<close>, a count with
  \<open>uint\<close> or \<open>unat\<close>. \<^verbatim>\<open>_timings\<close>, a
  \<^verbatim>\<open>std::map<std::chrono::nanoseconds, size_t>\<close>, is the list of its entries in iteration
  order, that is by ascending signed key. The mutex and the copy of the map that every
  query takes under it do not change what a single call computes: the snapshot is the
  field itself.
\<close>

type_synonym nanoseconds = "64 word"

type_synonym timings_map = "(nanoseconds \<times> 64 word) list"

record profiler =
  timings :: timings_map

definition profiler_new :: profiler where
  "profiler_new = \<lparr>timings = []\<rparr>"

definition ascending :: "timings_map \<Rightarrow> bool" where
  "ascending kvs = sorted_wrt (\<lambda>a b. sint (fst a) < sint (fst b)) kvs"

text \<open>\<^verbatim>\<open>_timings.insert({duration, 1})\<close>: the entry goes to its place in key order.\<close>

fun map_insert :: "nanoseconds \<times> 64 word \<Rightarrow> timings_map \<Rightarrow> timings_map" where
  "map_insert kv [] = [kv]"
| "map_insert kv (x # xs) =
     (if sint (fst kv) < sint (fst x) then kv # x # xs
      else if fst kv = fst x then x # xs
      else x # map_insert kv xs)"

text \<open>\<^verbatim>\<open>itr->second++\<close> on the entry that \<^verbatim>\<open>find\<close> returned.\<close>

fun map_incr :: "nanoseconds \<Rightarrow> timings_map \<Rightarrow> timings_map" where
  "map_incr d [] = []"
| "map_incr d ((k, c) # xs) =
     (if k = d then (k, c + 1) # xs else (k, c) # map_incr d xs)"

definition track :: "profiler \<Rightarrow> nanoseconds \<Rightarrow> profiler" where
  "track p duration =
     (case map_of (timings p) duration of
        None \<Rightarrow> p\<lparr>timings := map_insert (duration, 1) (timings p)\<rparr>
      | Some _ \<Rightarrow> p\<lparr>timings := map_incr duration (timings p)\<rparr>)"

definition count :: "profiler \<Rightarrow> 64 word" where
  "count p = foldl (\<lambda>count kv. count + snd kv) 0 (timings p)"

text \<open>
  \<^verbatim>\<open>kv.first * kv.second\<close> is computed in the common type of the two tick types
  (unsigned 64 bits) and converted back: a product modulo \<open>2\<^sup>6\<^sup>4\<close>.
\<close>

definition total_duration :: "profiler \<Rightarrow> nanoseconds" where
  "total_duration p = foldl (\<lambda>duration kv. duration + fst kv * snd kv) 0 (timings p)"

definition average_duration :: "profiler \<Rightarrow> double" where
  "average_duration p =
     (let (duration, count) =
        foldl (\<lambda>(duration, count) kv. (duration + fst kv * snd kv, count + snd kv))
          (0, 0) (timings p)
      in fdiv (i64_to_double duration) (u64_to_double count))"

definition is_equal :: "double \<Rightarrow> double \<Rightarrow> double \<Rightarrow> bool" where
  "is_equal a b c = (feq a b \<or> (fge a (fsub b c) \<and> fle a (fadd b c)))"

text \<open>The literals \<^verbatim>\<open>0.00005\<close> and \<^verbatim>\<open>0.0005\<close>, as the doubles nearest to them.\<close>

definition by_time_tolerance :: double where
  "by_time_tolerance = rnd (5 / 100000)"

definition by_call_tolerance :: double where
  "by_call_tolerance = rnd (5 / 10000)"

text \<open>The by-time loop: the first entry that passes the test, or \<open>None\<close> at the end.\<close>

fun by_time_scan ::
  "nanoseconds \<Rightarrow> nanoseconds \<Rightarrow> double \<Rightarrow> timings_map \<Rightarrow> nanoseconds option" where
  "by_time_scan smallest variance percentile [] = None"
| "by_time_scan smallest variance percentile (kv # kvs) =
     (let kv_pct = fdiv (i64_to_double (fst kv - smallest)) (i64_to_double variance)
      in if is_equal kv_pct percentile by_time_tolerance \<or> fgt kv_pct percentile
         then Some (fst kv)
         else by_time_scan smallest variance percentile kvs)"

text \<open>The by-call loop, with the running sum \<^verbatim>\<open>accu_calls_now\<close> as an argument.\<close>

fun by_call_scan ::
  "64 word \<Rightarrow> double \<Rightarrow> 64 word \<Rightarrow> timings_map \<Rightarrow> nanoseconds option" where
  "by_call_scan calls percentile accu_calls_now [] = None"
| "by_call_scan calls percentile accu_calls_now (kv # kvs) =
     (let accu_calls_last = accu_calls_now;
          accu_calls_now = accu_calls_now + snd kv;
          percentile_last = fdiv (u64_to_double accu_calls_last) (u64_to_double calls);
          percentile_now = fdiv (u64_to_double accu_calls_now) (u64_to_double calls)
      in if is_equal percentile percentile_now by_call_tolerance
            \<or> (flt percentile_last percentile \<and> fgt percentile_now percentile)
         then Some (fst kv)
         else by_call_scan calls percentile accu_calls_now kvs)"

text \<open>
  \<^verbatim>\<open>percentile\<close>. The result \<open>None\<close> stands for undefined behaviour: reading
  \<^verbatim>\<open>begin()->first\<close> of an empty snapshot. \<^verbatim>\<open>threshold\<close> is computed and never used.
\<close>

definition percentile :: "profiler \<Rightarrow> double \<Rightarrow> bool \<Rightarrow> nanoseconds option" where
  "percentile p pct by_time =
     (let calls = count p;
          copy_timings = timings p
      in if by_time then
           (case copy_timings of
              [] \<Rightarrow> None
            | first # _ \<Rightarrow>
                (let smallest = fst first;
                     largest = fst (last copy_timings);
                     variance = largest - smallest;
                     threshold = map_option (\<lambda>t. smallest + t)
                       (double_to_i64 (fmul (i64_to_double variance) pct))
                 in case by_time_scan smallest variance pct copy_timings of
                      Some d \<Rightarrow> Some d
                    | None \<Rightarrow> Some (- 1)))
         else if feq pct (Fin 0) then
           (case copy_timings of
              [] \<Rightarrow> None
            | first # _ \<Rightarrow> Some (fst first))
         else
           (case by_call_scan calls pct 0 copy_timings of
              Some d \<Rightarrow> Some d
            | None \<Rightarrow> Some (- 1)))"

section \<open>The scope tracker (\<^verbatim>\<open>util::profiler::instance\<close>)\<close>

text \<open>
  Accumulators are shared objects: a store maps the address of each to its state, and a
  \<^verbatim>\<open>std::shared_ptr<util::profiler>\<close> is an address or null. The clock is read by the
  caller and passed in. The class \<^verbatim>\<open>instance\<close> is the record \<open>scope_instance\<close>.
\<close>

type_synonym address = nat

type_synonym store = "address \<Rightarrow> profiler"

record scope_instance =
  parent :: "address option"
  start :: "64 word"

definition instance_new :: "address option \<Rightarrow> 64 word \<Rightarrow> scope_instance" where
  "instance_new prnt now = \<lparr>parent = prnt, start = now\<rparr>"

text \<open>\<^verbatim>\<open>util::profiler::track()\<close>: a tracker bound to this accumulator.\<close>

definition track_scope :: "address \<Rightarrow> 64 word \<Rightarrow> scope_instance" where
  "track_scope this now = instance_new (Some this) now"

text \<open>The destructor: reports the elapsed time to the parent, when there is one.\<close>

definition instance_release :: "scope_instance \<Rightarrow> 64 word \<Rightarrow> store \<Rightarrow> store" where
  "instance_release inst now s =
     (let end_time = now; dur = end_time - start inst
      in case parent inst of
           Some a \<Rightarrow> s(a := track (s a) dur)
         | None \<Rightarrow> s)"

definition cancel :: "scope_instance \<Rightarrow> scope_instance" where
  "cancel inst = inst\<lparr>parent := None\<rparr>"

text \<open>
  \<^verbatim>\<open>reparent\<close> executes \<^verbatim>\<open>parent = parent;\<close>: the parameter is assigned to itself and the
  field \<^verbatim>\<open>_parent\<close> is not written.
\<close>

definition reparent :: "scope_instance \<Rightarrow> address option \<Rightarrow> scope_instance" where
  "reparent inst prnt = (let prnt = prnt in inst)"

section \<open>The notions the properties are stated with\<close>

text \<open>
  The recorded durations, and the smallest and the largest of them (the first and the
  last key of the ascending mapping).
\<close>

definition keys :: "profiler \<Rightarrow> nanoseconds set" where
  "keys p = fst ` set (timings p)"

definition smallest :: "profiler \<Rightarrow> nanoseconds" where
  "smallest p = fst (hd (timings p))"

definition largest :: "profiler \<Rightarrow> nanoseconds" where
  "largest p = fst (last (timings p))"

text \<open>
  The position of a duration as the by-time loop computes it, \<^verbatim>\<open>kv_pct\<close>: both
  differences are taken in 64-bit ticks, so they wrap when \<open>largest - smallest\<close> does not
  fit in a signed 64-bit count. \<open>by_time_accepts\<close> is the test of the loop on that value.
\<close>

definition normalized_position :: "profiler \<Rightarrow> nanoseconds \<Rightarrow> double" where
  "normalized_position p d =
     fdiv (i64_to_double (d - smallest p)) (i64_to_double (largest p - smallest p))"

definition by_time_accepts :: "profiler \<Rightarrow> double \<Rightarrow> nanoseconds \<Rightarrow> bool" where
  "by_time_accepts p pct d =
     (fge (normalized_position p d) pct
      \<or> (fge (normalized_position p d) (fsub pct by_time_tolerance)
         \<and> fle (normalized_position p d) (fadd pct by_time_tolerance)))"

text \<open>
  The normalized position in the words of the specification,
  \<open>(d - smallest) / (largest - smallest)\<close>: the two differences are those of the durations
  as integers, without wrap-around, each converted to binary64 and divided there. A
  duration is accepted for \<open>p\<close> when its position is at least \<open>p\<close>, equality being accepted
  within the tolerance of \<open>0.00005\<close>.
\<close>

definition true_position :: "profiler \<Rightarrow> nanoseconds \<Rightarrow> double" where
  "true_position p d =
     fdiv (rnd (of_int (sint d - sint (smallest p))))
       (rnd (of_int (sint (largest p) - sint (smallest p))))"

definition position_accepted :: "profiler \<Rightarrow> double \<Rightarrow> nanoseconds \<Rightarrow> bool" where
  "position_accepted p pct d =
     (fge (true_position p d) pct
      \<or> (fge (true_position p d) (fsub pct by_time_tolerance)
         \<and> fle (true_position p d) (fadd pct by_time_tolerance)))"

text \<open>
  The cumulative call count up to (not including) the \<open>i\<close>-th distinct duration in
  ascending order, its fraction of all calls, and the by-call condition on the \<open>i\<close>-th
  duration: the fraction reached with it equals \<open>p\<close> within the tolerance, or \<open>p\<close> lies
  strictly between the fraction before it and the fraction with it.
\<close>

definition cumulative_calls :: "profiler \<Rightarrow> nat \<Rightarrow> 64 word" where
  "cumulative_calls p i = sum_list (map snd (take i (timings p)))"

definition cumulative_fraction :: "profiler \<Rightarrow> nat \<Rightarrow> double" where
  "cumulative_fraction p i =
     fdiv (u64_to_double (cumulative_calls p i)) (u64_to_double (count p))"

definition by_call_accepts :: "profiler \<Rightarrow> double \<Rightarrow> nat \<Rightarrow> bool" where
  "by_call_accepts p pct i =
     (is_equal pct (cumulative_fraction p (Suc i)) by_call_tolerance
      \<or> (flt (cumulative_fraction p i) pct \<and> fgt (cumulative_fraction p (Suc i)) pct))"

section \<open>Evaluating the arithmetic\<close>

text \<open>
  Equations without \<open>let\<close> for computing with the definitions on numerals, and the floor
  of a quotient of numerals over the rationals.
\<close>

lemma floor_rat_numeral_divide:
  "\<lfloor>numeral a / numeral b :: rat\<rfloor> = numeral a div numeral b"
  using floor_divide_of_int_eq [of "numeral a" "numeral b", where ?'a = rat] by simp

lemma floor_rat_minus_numeral_divide:
  "\<lfloor>- (numeral a / numeral b) :: rat\<rfloor> = - numeral a div numeral b"
  using floor_divide_of_int_eq [of "- numeral a" "numeral b", where ?'a = rat] by simp

lemma floor_rat_one_divide:
  "\<lfloor>1 / numeral b :: rat\<rfloor> = 1 div numeral b"
  using floor_divide_of_int_eq [of 1 "numeral b", where ?'a = rat] by simp

lemma floor_rat_minus_one_divide:
  "\<lfloor>- (1 / numeral b) :: rat\<rfloor> = - 1 div numeral b"
  using floor_divide_of_int_eq [of "- 1" "numeral b", where ?'a = rat] by simp

lemmas floor_rat = floor_rat_numeral_divide floor_rat_minus_numeral_divide
  floor_rat_one_divide floor_rat_minus_one_divide

lemma binexp_numeral:
  "binexp (numeral k) x =
     (if 2 \<le> x then binexp (pred_numeral k) (x / 2) + 1
      else if x < 1 then binexp (pred_numeral k) (x * 2) - 1
      else 0)"
  by (simp add: numeral_eq_Suc)

lemma round_half_even_unfold:
  "round_half_even q =
     (if q - of_int \<lfloor>q\<rfloor> < 1 / 2 then \<lfloor>q\<rfloor>
      else if 1 / 2 < q - of_int \<lfloor>q\<rfloor> then \<lfloor>q\<rfloor> + 1
      else if even \<lfloor>q\<rfloor> then \<lfloor>q\<rfloor> else \<lfloor>q\<rfloor> + 1)"
  by (simp add: round_half_even_def Let_def)

lemma rnd_unfold:
  "rnd x = (if 2 ^ 1024 \<le> nearest x then PInf
            else if nearest x \<le> - (2 ^ 1024) then NInf
            else Fin (nearest x))"
  by (simp add: rnd_def Let_def)

lemma rnd_value: "nearest x = r \<Longrightarrow> - (2 ^ 1024) < r \<Longrightarrow> r < 2 ^ 1024 \<Longrightarrow> rnd x = Fin r"
  by (simp add: rnd_unfold)

lemmas nearest_eval = nearest_def spacing_def binexp_numeral pow2_def round_half_even_unfold
  floor_rat

lemma rnd_zero: "rnd 0 = Fin 0"
  by (rule rnd_value) (simp_all add: nearest_eval)

lemma rnd_one: "rnd 1 = Fin 1"
  by (rule rnd_value) (simp_all add: nearest_eval)

lemma by_time_tolerance_value:
  "by_time_tolerance = Fin (7378697629483821 / 147573952589676412928)"
  unfolding by_time_tolerance_def by (rule rnd_value) (simp_all add: nearest_eval)

lemma by_call_tolerance_value:
  "by_call_tolerance = Fin (1152921504606847 / 2305843009213693952)"
  unfolding by_call_tolerance_def by (rule rnd_value) (simp_all add: nearest_eval)

lemmas float_eval = rnd_unfold nearest_eval is_equal_def feq_def fle_def fge_def fgt_def
  fsub_def by_time_tolerance_value by_call_tolerance_value i64_to_double_def u64_to_double_def

lemma by_time_scan_unfold:
  "by_time_scan s v pct (kv # kvs) =
     (if is_equal (fdiv (i64_to_double (fst kv - s)) (i64_to_double v)) pct by_time_tolerance
         \<or> fgt (fdiv (i64_to_double (fst kv - s)) (i64_to_double v)) pct
      then Some (fst kv)
      else by_time_scan s v pct kvs)"
  by (simp add: Let_def)

lemma by_call_scan_unfold:
  "by_call_scan calls pct a (kv # kvs) =
     (if is_equal pct (fdiv (u64_to_double (a + snd kv)) (u64_to_double calls)) by_call_tolerance
         \<or> (flt (fdiv (u64_to_double a) (u64_to_double calls)) pct
            \<and> fgt (fdiv (u64_to_double (a + snd kv)) (u64_to_double calls)) pct)
      then Some (fst kv)
      else by_call_scan calls pct (a + snd kv) kvs)"
  by (simp add: Let_def)

lemma percentile_by_time_unfold:
  "timings p \<noteq> [] \<Longrightarrow>
     percentile p pct True =
       (case by_time_scan (smallest p) (largest p - smallest p) pct (timings p) of
          Some d \<Rightarrow> Some d
        | None \<Rightarrow> Some (- 1))"
  by (cases "timings p") (simp_all add: percentile_def Let_def smallest_def largest_def)

lemma percentile_by_call_unfold:
  "\<not> feq pct (Fin 0) \<Longrightarrow>
     percentile p pct False =
       (case by_call_scan (count p) pct 0 (timings p) of
          Some d \<Rightarrow> Some d
        | None \<Rightarrow> Some (- 1))"
  by (simp add: percentile_def Let_def)

section \<open>Rounding an integer\<close>

text \<open>
  The exponent search is exact on \<open>[1, 2\<^sup>n)\<close> when it may take \<open>n\<close> steps, so a non-zero
  integer of at most 64 bits rounds to a finite non-zero double.
\<close>

lemma binexp_bounds:
  "n \<le> fuel \<Longrightarrow> 1 \<le> x \<Longrightarrow> x < 2 ^ n \<Longrightarrow>
     0 \<le> binexp fuel x \<and> binexp fuel x < int n
     \<and> 2 ^ nat (binexp fuel x) \<le> x \<and> x < 2 * 2 ^ nat (binexp fuel x)"
proof (induction fuel arbitrary: x n)
  case 0
  then show ?case by simp
next
  case (Suc fuel)
  show ?case
  proof (cases "2 \<le> x")
    case False
    with Suc.prems show ?thesis
      by (cases n) auto
  next
    case True
    with Suc.prems obtain m where n: "n = Suc m"
      by (cases n) auto
    have "m \<le> fuel" "1 \<le> x / 2" "x / 2 < 2 ^ m"
      using Suc.prems True n by auto
    from Suc.IH [OF this]
    have ih: "0 \<le> binexp fuel (x / 2)" "binexp fuel (x / 2) < int m"
      "2 ^ nat (binexp fuel (x / 2)) \<le> x / 2" "x / 2 < 2 * 2 ^ nat (binexp fuel (x / 2))"
      by auto
    have "nat (binexp fuel (x / 2) + 1) = Suc (nat (binexp fuel (x / 2)))"
      using ih(1) by simp
    with ih True n show ?thesis
      by simp
  qed
qed

lemma round_half_even_ge: "of_int k \<le> q \<Longrightarrow> k \<le> round_half_even q"
proof -
  assume "of_int k \<le> q"
  then have "k \<le> \<lfloor>q\<rfloor>" by (simp add: le_floor_iff)
  then show ?thesis by (simp add: round_half_even_def Let_def)
qed

lemma round_half_even_le: "q \<le> of_int k \<Longrightarrow> round_half_even q \<le> k"
proof (cases "q = of_int k")
  case True
  then show ?thesis by (simp add: round_half_even_def)
next
  case False
  assume "q \<le> of_int k"
  with False have "q < of_int k" by simp
  then have "\<lfloor>q\<rfloor> < k" by (simp add: floor_less_iff)
  then show ?thesis by (simp add: round_half_even_def Let_def)
qed

lemma pow2_pos: "0 < pow2 e"
  by (simp add: pow2_def)

lemma pow2_powi: "pow2 e = 2 powi e"
  by (simp add: pow2_def power_int_def power_one_over)

lemma pow2_shift: "0 \<le> e \<Longrightarrow> pow2 (e - 52) * 2 ^ 52 = 2 ^ nat e"
proof -
  assume "0 \<le> e"
  have "pow2 (e - 52) = 2 powi e / 2 powi 52"
    unfolding pow2_powi by (rule power_int_diff) simp
  also have "\<dots> = 2 ^ nat e / 2 ^ 52"
    using \<open>0 \<le> e\<close> by (simp add: power_int_def)
  finally show ?thesis by simp
qed

lemma rnd_pos_finite:
  assumes "1 \<le> x" "x < 2 ^ 64"
  shows "\<exists>r. rnd x = Fin r \<and> 1 \<le> r"
proof -
  define e where "e = binexp 1100 \<bar>x\<bar>"
  define u where "u = pow2 (e - 52)"
  define m where "m = round_half_even (x / u)"
  have ax: "\<bar>x\<bar> = x" using assms by simp
  have "(64::nat) \<le> 1100" by simp
  from binexp_bounds [OF this, of x] assms
  have e: "0 \<le> e" "e < 64" "2 ^ nat e \<le> x" "x < 2 * 2 ^ nat e"
    by (simp_all add: e_def ax)
  have u: "0 < u" "u * 2 ^ 52 = 2 ^ nat e"
    using pow2_shift [OF e(1)] by (simp_all add: u_def pow2_pos)
  have "of_int (2 ^ 52) * u \<le> x"
    using e(3) u(2) by (simp add: mult.commute)
  then have "of_int (2 ^ 52) \<le> x / u"
    using u(1) by (simp add: pos_le_divide_eq)
  then have lo: "2 ^ 52 \<le> m"
    unfolding m_def by (rule round_half_even_ge)
  have "x \<le> of_int (2 ^ 53) * u"
    using e(4) u(2) by (simp add: mult.commute)
  then have "x / u \<le> of_int (2 ^ 53)"
    using u(1) by (simp add: pos_divide_le_eq)
  then have hi: "m \<le> 2 ^ 53"
    unfolding m_def by (rule round_half_even_le)
  have "(2::rat) ^ 52 * u \<le> of_int m * u"
    using lo u(1) by (simp add: of_int_le_iff [of "2 ^ 52" m, where ?'a = rat, simplified])
  moreover have "(2::rat) ^ 52 * u = 2 ^ nat e"
    using u(2) by (simp add: mult.commute)
  moreover have "(1::rat) \<le> 2 ^ nat e"
    by (rule one_le_power) simp
  ultimately have r_lo: "1 \<le> of_int m * u"
    by (simp only:)
  have "of_int m * u \<le> 2 ^ 53 * u"
    using hi u(1) by (simp add: of_int_le_iff [of m "2 ^ 53", where ?'a = rat, simplified])
  also have "\<dots> = 2 * 2 ^ nat e"
    using u(2) by (simp add: mult.commute)
  also have "\<dots> \<le> 2 * 2 ^ 63"
    using power_increasing [of "nat e" 63 "2::rat"] e(1,2) by (simp del: power_increasing_iff)
  finally have r_hi: "of_int m * u < 2 ^ 1024"
    by simp
  have "max e (- 1022) = e" using e(1) by simp
  then have "nearest x = of_int m * u"
    by (simp add: nearest_def spacing_def e_def [symmetric] u_def [symmetric] m_def [symmetric])
  with r_lo r_hi have "rnd x = Fin (of_int m * u)"
    by (simp add: rnd_unfold)
  with r_lo show ?thesis by blast
qed


section \<open>Accuracy of the rounding\<close>

text \<open>
  The rounded value lies within half a spacing of the exact one, and an integer of
  magnitude at most \<open>2\<^sup>5\<^sup>3\<close> is converted without error.
\<close>

lemma round_half_even_close: "\<bar>q - of_int (round_half_even q)\<bar> \<le> 1 / 2"
proof -
  have "of_int \<lfloor>q\<rfloor> \<le> q" "q < of_int \<lfloor>q\<rfloor> + 1"
    by linarith+
  then show ?thesis
    by (auto simp: round_half_even_def Let_def)
qed

lemma spacing_pos: "0 < spacing x"
  by (simp add: spacing_def pow2_pos)

lemma nearest_close: "\<bar>x - nearest x\<bar> \<le> spacing x / 2"
proof -
  let ?u = "spacing x"
  have u: "0 < ?u" by (rule spacing_pos)
  have "(x / ?u - of_int (round_half_even (x / ?u))) * ?u = x - nearest x"
    using u by (simp add: nearest_def left_diff_distrib)
  then have "\<bar>x - nearest x\<bar> = \<bar>x / ?u - of_int (round_half_even (x / ?u))\<bar> * \<bar>?u\<bar>"
    by (simp only: abs_mult [symmetric])
  also have "\<dots> = \<bar>x / ?u - of_int (round_half_even (x / ?u))\<bar> * ?u"
    using u by simp
  also have "\<dots> \<le> 1 / 2 * ?u"
    using u round_half_even_close [of "x / ?u"] by (simp only: mult_le_cancel_right_pos)
  finally show ?thesis by simp
qed

lemma rnd_close: "rnd x = Fin r \<Longrightarrow> \<bar>x - r\<bar> \<le> spacing x / 2"
  using nearest_close [of x] by (auto simp: rnd_unfold split: if_splits)

lemma round_half_even_of_int: "round_half_even (of_int k) = k"
  by (simp add: round_half_even_def)

lemma nearest_exact:
  assumes "x / spacing x = of_int j"
  shows "nearest x = x"
proof -
  have "nearest x = x / spacing x * spacing x"
    by (simp add: nearest_def assms round_half_even_of_int)
  also have "\<dots> = x"
    using spacing_pos [of x] by simp
  finally show ?thesis .
qed

lemma spacing_small_int:
  assumes "k \<noteq> 0" "\<bar>k\<bar> \<le> 2 ^ 53"
  shows "\<exists>j. of_int k / spacing (of_int k) = (of_int j :: rat)"
proof -
  let ?a = "\<bar>of_int k :: rat\<bar>"
  define e where "e = binexp 1100 ?a"
  have a1: "1 \<le> ?a"
    using assms(1) by (simp flip: of_int_abs)
  have "\<bar>k\<bar> < 2 ^ 54" using assms(2) by simp
  then have "(of_int \<bar>k\<bar> :: rat) < of_int (2 ^ 54)" by (simp only: of_int_less_iff)
  then have a2: "?a < 2 ^ 54" by simp
  have "(54::nat) \<le> 1100" by simp
  from binexp_bounds [OF this a1 a2]
  have e: "0 \<le> e" "e < 54" "2 ^ nat e \<le> ?a"
    by (simp_all add: e_def)
  have sp: "spacing (of_int k) = pow2 (e - 52)"
    using e(1) by (simp add: spacing_def e_def)
  show ?thesis
  proof (cases "e \<le> 52")
    case True
    then have "pow2 (e - 52) = 1 / 2 ^ nat (52 - e)"
      by (cases "e = 52") (simp_all add: pow2_def)
    then have "of_int k / spacing (of_int k) = (of_int (k * 2 ^ nat (52 - e)) :: rat)"
      by (simp add: sp)
    then show ?thesis by blast
  next
    case False
    with e(2) have e53: "e = 53" by simp
    with e(3) have "(2 :: rat) ^ 53 \<le> of_int \<bar>k\<bar>" by simp
    then have "(of_int (2 ^ 53) :: rat) \<le> of_int \<bar>k\<bar>" by simp
    then have "2 ^ 53 \<le> \<bar>k\<bar>" by (simp only: of_int_le_iff)
    with assms(2) have "\<bar>k\<bar> = 2 ^ 53" by simp
    then have "k = 2 ^ 53 \<or> k = - (2 ^ 53)" by linarith
    moreover have "pow2 (e - 52) = 2" by (simp add: e53 pow2_def)
    ultimately have "of_int k / spacing (of_int k) = (of_int (k div 2) :: rat)"
      by (auto simp: sp)
    then show ?thesis by blast
  qed
qed

lemma rnd_small_int:
  assumes "\<bar>k\<bar> \<le> 2 ^ 53"
  shows "rnd (of_int k) = Fin (of_int k)"
proof (cases "k = 0")
  case True
  then show ?thesis by (simp add: rnd_zero)
next
  case False
  from spacing_small_int [OF False assms] obtain j
    where "of_int k / spacing (of_int k) = (of_int j :: rat)" by blast
  then have n: "nearest (of_int k) = (of_int k :: rat)" by (rule nearest_exact)
  have "(of_int \<bar>k\<bar> :: rat) \<le> of_int (2 ^ 53)"
    using assms by (simp only: of_int_le_iff)
  then have "\<bar>of_int k :: rat\<bar> \<le> 2 ^ 53" by simp
  then have "- (2 ^ 1024) < (of_int k :: rat)" "(of_int k :: rat) < 2 ^ 1024"
    by (simp_all add: abs_le_iff)
  with n show ?thesis by (simp add: rnd_unfold)
qed

section \<open>Converting the integers of the profiler\<close>


lemma u64_to_double_nonzero:
  assumes "w \<noteq> 0"
  shows "\<exists>r. u64_to_double w = Fin r \<and> r \<noteq> 0"
proof -
  have "uint w \<noteq> 0" using assms by (simp add: uint_0_iff)
  then have "1 \<le> uint w" using uint_ge_0 [of w] by linarith
  then have "(of_int 1 :: rat) \<le> of_int (uint w)"
    by (simp only: of_int_le_iff)
  moreover have "uint w < 2 ^ 64" using uint_lt2p [of w] by simp
  then have "(of_int (uint w) :: rat) < of_int (2 ^ 64)"
    by (simp only: of_int_less_iff)
  ultimately obtain r where "rnd (of_int (uint w)) = Fin r" "1 \<le> r"
    using rnd_pos_finite [of "of_int (uint w)"] by (auto simp del: of_int_uint)
  then show ?thesis by (auto simp: u64_to_double_def simp del: of_int_uint)
qed


lemma u64_ratio_one: "w \<noteq> 0 \<Longrightarrow> fdiv (u64_to_double w) (u64_to_double w) = Fin 1"
  using u64_to_double_nonzero [of w] by (auto simp: rnd_one)

lemma i64_to_double_zero: "i64_to_double 0 = Fin 0"
  by (simp add: i64_to_double_def rnd_zero)

lemma u64_to_double_zero: "u64_to_double 0 = Fin 0"
  by (simp add: u64_to_double_def rnd_zero)

lemma is_equal_NaN: "is_equal NaN b c = False"
  by (cases "fsub b c") (simp_all add: is_equal_def feq_def fge_def fle_def)

lemma fgt_NaN: "fgt NaN b = False"
  by (cases b) (simp_all add: fgt_def)


lemma feq_commute: "feq a b \<longleftrightarrow> feq b a"
  by (auto simp: feq_def)

lemma by_time_test_iff:
  "is_equal a pct c \<or> fgt a pct \<longleftrightarrow> fge a pct \<or> (fge a (fsub pct c) \<and> fle a (fadd pct c))"
  by (auto simp: is_equal_def fge_def fle_def fgt_def feq_commute)

lemma near_one_nonzero: "is_equal pct (Fin 1) by_call_tolerance \<Longrightarrow> \<not> feq pct (Fin 0)"
proof
  assume "feq pct (Fin 0)"
  then have "pct = Fin 0" by (simp add: feq_def)
  moreover assume "is_equal pct (Fin 1) by_call_tolerance"
  ultimately have "is_equal (Fin 0) (Fin 1) by_call_tolerance" by simp
  then show False by (simp add: float_eval)
qed

section \<open>The mapping\<close>

lemma map_of_map_insert:
  "map_of kvs d = None \<Longrightarrow> map_of (map_insert (d, c) kvs) = (map_of kvs)(d \<mapsto> c)"
  by (induction kvs) (auto split: if_splits)

lemma map_of_map_incr:
  "map_of kvs d = Some c \<Longrightarrow> map_of (map_incr d kvs) = (map_of kvs)(d \<mapsto> c + 1)"
  by (induction kvs) (auto split: if_splits)

lemma keys_map_incr: "map fst (map_incr d kvs) = map fst kvs"
  by (induction d kvs rule: map_incr.induct) auto

lemma set_map_insert:
  "map_of kvs (fst kv) = None \<Longrightarrow> set (map_insert kv kvs) = insert kv (set kvs)"
  by (induction kvs) (auto split: if_splits)

lemma ascending_Cons:
  "ascending (x # xs) \<longleftrightarrow> (\<forall>y\<in>set xs. sint (fst x) < sint (fst y)) \<and> ascending xs"
  by (simp add: ascending_def)

lemma ascending_map_insert:
  "ascending kvs \<Longrightarrow> map_of kvs (fst kv) = None \<Longrightarrow> ascending (map_insert kv kvs)"
proof (induction kvs)
  case Nil
  then show ?case by (simp add: ascending_def)
next
  case (Cons x xs)
  from Cons.prems have ne: "fst kv \<noteq> fst x" and none: "map_of xs (fst kv) = None"
    by (auto split: if_splits)
  from Cons.prems have asc: "ascending xs" and lt: "\<forall>y\<in>set xs. sint (fst x) < sint (fst y)"
    by (simp_all add: ascending_Cons)
  show ?case
  proof (cases "sint (fst kv) < sint (fst x)")
    case True
    with Cons.prems lt show ?thesis
      by (fastforce simp: ascending_Cons)
  next
    case False
    with ne have "sint (fst x) < sint (fst kv)"
      by (metis linorder_neqE_linordered_idom signed_word_eqI)
    with False ne Cons.IH [OF asc none] lt none show ?thesis
      by (auto simp: ascending_Cons set_map_insert)
  qed
qed

lemma ascending_map_incr: "ascending kvs \<Longrightarrow> ascending (map_incr d kvs)"
proof -
  have "ascending kvs \<longleftrightarrow> sorted_wrt (\<lambda>a b. sint a < sint b) (map fst kvs)" for kvs :: timings_map
    by (simp add: ascending_def sorted_wrt_map)
  then show "ascending kvs \<Longrightarrow> ascending (map_incr d kvs)"
    by (simp add: keys_map_incr)
qed

lemma ascending_distinct: "ascending kvs \<Longrightarrow> distinct (map fst kvs)"
  by (induction kvs) (auto simp: ascending_Cons)

lemma ascending_track: "ascending (timings p) \<Longrightarrow> ascending (timings (track p d))"
  by (auto simp: track_def ascending_map_insert ascending_map_incr split: option.splits)

lemma ascending_foldl_track: "ascending (timings p) \<Longrightarrow> ascending (timings (foldl track p ds))"
  by (induction ds rule: rev_induct) (simp_all add: ascending_track)

lemma ascending_new: "ascending (timings (foldl track profiler_new ds))"
  by (rule ascending_foldl_track) (simp add: profiler_new_def ascending_def)

lemma ascending_nth_less:
  "ascending kvs \<Longrightarrow> i < j \<Longrightarrow> j < length kvs \<Longrightarrow> sint (fst (kvs ! i)) < sint (fst (kvs ! j))"
  unfolding ascending_def by (rule sorted_wrt_nth_less)

lemma ascending_nth_le:
  "ascending kvs \<Longrightarrow> i \<le> j \<Longrightarrow> j < length kvs \<Longrightarrow> sint (fst (kvs ! i)) \<le> sint (fst (kvs ! j))"
  using ascending_nth_less [of kvs i j] by (cases "i = j") auto

lemma map_of_track:
  "map_of (timings (track p d)) =
     (map_of (timings p))(d \<mapsto> (case map_of (timings p) d of None \<Rightarrow> 1 | Some c \<Rightarrow> c + 1))"
  by (auto simp: track_def map_of_map_insert map_of_map_incr split: option.splits)

lemma map_of_foldl_track:
  "map_of (timings (foldl track profiler_new ds)) d =
     (if d \<in> set ds then Some (of_nat (count_list ds d)) else None)"
proof (induction ds rule: rev_induct)
  case Nil
  then show ?case by (simp add: profiler_new_def)
next
  case (snoc x xs)
  then show ?case
    by (auto simp: map_of_track)
qed

lemma foldl_track_snoc: "foldl track p (ds @ [d]) = track (foldl track p ds) d"
  by simp

lemma track_single: "timings p = [(d, c)] \<Longrightarrow> timings (track p d) = [(d, c + 1)]"
  by (simp add: track_def)

lemma replicate_track_Suc:
  "timings (foldl track profiler_new (replicate (Suc n) d)) = [(d, of_nat (Suc n))]"
proof (induction n)
  case 0
  then show ?case by (simp add: track_def profiler_new_def)
next
  case (Suc n)
  have "replicate (Suc (Suc n)) d = replicate (Suc n) d @ [d]"
    using replicate_append_same [of "Suc n" d] by simp
  then have "timings (foldl track profiler_new (replicate (Suc (Suc n)) d))
      = timings (track (foldl track profiler_new (replicate (Suc n) d)) d)"
    by (simp only: foldl_track_snoc)
  also have "\<dots> = [(d, of_nat (Suc n) + 1)]"
    using Suc.IH by (rule track_single)
  finally show ?case by (simp add: add.commute)
qed

lemma replicate_track:
  "0 < n \<Longrightarrow> timings (foldl track profiler_new (replicate n d)) = [(d, of_nat n)]"
  using replicate_track_Suc [of "n - 1" d] by simp

section \<open>Counting\<close>

lemma foldl_count: "foldl (\<lambda>count kv. count + snd kv) a kvs = a + sum_list (map snd kvs)"
  for a :: "64 word"
  by (induction kvs arbitrary: a) (simp_all add: add.assoc)

lemma count_sum: "count p = sum_list (map snd (timings p))"
  by (simp add: count_def foldl_count)

lemma sum_map_insert:
  "map_of kvs (fst kv) = None \<Longrightarrow>
     sum_list (map snd (map_insert kv kvs)) = sum_list (map snd kvs) + snd kv"
  for kvs :: timings_map
  by (induction kvs) (auto split: if_splits)

lemma sum_map_incr:
  "map_of kvs d = Some c \<Longrightarrow>
     sum_list (map snd (map_incr d kvs)) = sum_list (map snd kvs) + 1"
  by (induction d kvs rule: map_incr.induct) (auto split: if_splits)

lemma count_track: "count (track p d) = count p + 1"
  by (auto simp: count_sum track_def sum_map_insert sum_map_incr split: option.splits)

lemma count_foldl_track: "count (foldl track p ds) = count p + of_nat (length ds)"
  by (induction ds rule: rev_induct) (simp_all add: count_track)

lemma count_new: "count profiler_new = 0"
  by (simp add: count_def profiler_new_def)

lemma average_fold:
  "foldl (\<lambda>(duration, count) kv. (duration + fst kv * snd kv, count + snd kv)) (a, b) kvs
     = (foldl (\<lambda>duration kv. duration + fst kv * snd kv) a kvs,
        foldl (\<lambda>count kv. count + snd kv) b kvs)"
  by (induction kvs arbitrary: a b) simp_all

lemma average_duration_fused:
  "average_duration p = fdiv (i64_to_double (total_duration p)) (u64_to_double (count p))"
  by (simp add: average_duration_def average_fold total_duration_def count_def)

section \<open>The two scans\<close>

text \<open>Each loop returns the first entry, in ascending order, that passes its test.\<close>

lemma by_time_scan_find:
  "by_time_scan s v pct kvs =
     map_option fst
       (find (\<lambda>kv. let kv_pct = fdiv (i64_to_double (fst kv - s)) (i64_to_double v)
                   in is_equal kv_pct pct by_time_tolerance \<or> fgt kv_pct pct) kvs)"
  by (induction kvs) (simp_all add: Let_def)

lemma percentile_by_time_find:
  "timings p \<noteq> [] \<Longrightarrow>
     percentile p pct True =
       (case find (\<lambda>kv. by_time_accepts p pct (fst kv)) (timings p) of
          Some kv \<Rightarrow> Some (fst kv)
        | None \<Rightarrow> Some (- 1))"
proof -
  assume ne: "timings p \<noteq> []"
  have test: "(\<lambda>kv. let kv_pct = fdiv (i64_to_double (fst kv - smallest p))
                                   (i64_to_double (largest p - smallest p))
                   in is_equal kv_pct pct by_time_tolerance \<or> fgt kv_pct pct)
      = (\<lambda>kv. by_time_accepts p pct (fst kv))"
    by (simp add: by_time_accepts_def normalized_position_def Let_def by_time_test_iff)
  show ?thesis
    by (simp add: percentile_by_time_unfold [OF ne] by_time_scan_find test split: option.splits)
qed

lemma by_call_scan_find:
  "k \<le> length kvs \<Longrightarrow>
     by_call_scan calls pct (sum_list (map snd (take k kvs))) (drop k kvs) =
       map_option (\<lambda>i. fst (kvs ! i))
         (find (\<lambda>i. is_equal pct
                      (fdiv (u64_to_double (sum_list (map snd (take (Suc i) kvs))))
                         (u64_to_double calls)) by_call_tolerance
                   \<or> (flt (fdiv (u64_to_double (sum_list (map snd (take i kvs))))
                              (u64_to_double calls)) pct
                      \<and> fgt (fdiv (u64_to_double (sum_list (map snd (take (Suc i) kvs))))
                              (u64_to_double calls)) pct))
            [k..<length kvs])"
proof (induction "length kvs - k" arbitrary: k)
  case 0
  then show ?case by simp
next
  case (Suc n)
  then have lt: "k < length kvs" and n: "n = length kvs - Suc k" and le: "Suc k \<le> length kvs"
    by auto
  have d: "drop k kvs = kvs ! k # drop (Suc k) kvs"
    using lt by (simp add: Cons_nth_drop_Suc)
  have s: "sum_list (map snd (take (Suc k) kvs)) = sum_list (map snd (take k kvs)) + snd (kvs ! k)"
    using lt by (simp add: take_Suc_conv_app_nth)
  have u: "[k..<length kvs] = k # [Suc k..<length kvs]"
    using lt by (simp add: upt_conv_Cons)
  show ?case
    unfolding d u using Suc.hyps(1) [OF n le]
    by (simp add: Let_def s)
qed

lemma percentile_by_call_find:
  "\<not> feq pct (Fin 0) \<Longrightarrow>
     percentile p pct False =
       (case find (by_call_accepts p pct) [0..<length (timings p)] of
          Some i \<Rightarrow> Some (fst (timings p ! i))
        | None \<Rightarrow> Some (- 1))"
proof -
  assume nz: "\<not> feq pct (Fin 0)"
  have "by_call_scan (count p) pct 0 (timings p) =
      map_option (\<lambda>i. fst (timings p ! i))
        (find (by_call_accepts p pct) [0..<length (timings p)])"
    using by_call_scan_find [of 0 "timings p" "count p" pct]
    by (simp add: by_call_accepts_def [abs_def] cumulative_fraction_def cumulative_calls_def)
  then show ?thesis
    by (simp add: percentile_by_call_unfold [OF nz] split: option.splits)
qed

text \<open>With the scan already evaluated on the entries.\<close>

lemma percentile_by_time_eval:
  "timings p = kv # kvs \<Longrightarrow>
   by_time_scan (fst kv) (fst (last (kv # kvs)) - fst kv) pct (kv # kvs) = r \<Longrightarrow>
     percentile p pct True = (case r of Some d \<Rightarrow> Some d | None \<Rightarrow> Some (- 1))"
  by (simp add: percentile_def Let_def del: by_time_scan.simps)

lemma percentile_by_call_eval:
  "timings p = kvs \<Longrightarrow> \<not> feq pct (Fin 0) \<Longrightarrow>
   by_call_scan (sum_list (map snd kvs)) pct 0 kvs = r \<Longrightarrow>
     percentile p pct False = (case r of Some d \<Rightarrow> Some d | None \<Rightarrow> Some (- 1))"
  by (simp add: percentile_by_call_unfold count_sum)

text \<open>In an ascending mapping the first key is the smallest and the last the largest.\<close>

lemma smallest_least:
  assumes "ascending (timings p)" "d \<in> keys p"
  shows "sint (smallest p) \<le> sint d"
proof -
  from assms(2) obtain j where j: "j < length (timings p)" "d = fst (timings p ! j)"
    by (auto simp: keys_def in_set_conv_nth)
  then have "timings p \<noteq> []" by auto
  then have "smallest p = fst (timings p ! 0)"
    by (simp add: smallest_def hd_conv_nth)
  with ascending_nth_le [OF assms(1) _ j(1), of 0] j(2) show ?thesis by simp
qed

lemma largest_greatest:
  assumes "ascending (timings p)" "d \<in> keys p"
  shows "sint d \<le> sint (largest p)"
proof -
  from assms(2) obtain j where j: "j < length (timings p)" "d = fst (timings p ! j)"
    by (auto simp: keys_def in_set_conv_nth)
  then have ne: "timings p \<noteq> []" by auto
  then have l: "largest p = fst (timings p ! (length (timings p) - 1))"
    by (simp add: largest_def last_conv_nth)
  have "j \<le> length (timings p) - 1" "length (timings p) - 1 < length (timings p)"
    using j(1) by auto
  from ascending_nth_le [OF assms(1) this] j(2) l show ?thesis by simp
qed





text \<open>With a single entry the normalized position is \<open>0 / 0\<close> and nothing passes the test.\<close>

lemma single_entry_scan: "by_time_scan d 0 pct [(d, c)] = None"
  by (simp add: by_time_scan_unfold i64_to_double_zero is_equal_NaN fgt_NaN
      del: by_time_scan.simps(2))

lemma single_entry_percentile:
  assumes "timings p = [(d, c)]"
  shows "percentile p pct True = Some (- 1)"
proof -
  have "by_time_scan (fst (d, c)) (fst (last [(d, c)]) - fst (d, c)) pct [(d, c)] = None"
    by (simp add: single_entry_scan del: by_time_scan.simps)
  from percentile_by_time_eval [OF assms this] show ?thesis by simp
qed

section \<open>The scenario of the specification\<close>

lemma scenario_timings:
  "timings (foldl track profiler_new [10, 20, 20, 30]) = [(10, 1), (20, 2), (30, 1)]"
  by (simp add: track_def profiler_new_def)

lemma scenario_count: "count (foldl track profiler_new [10, 20, 20, 30]) = 4"
  unfolding count_def scenario_timings by simp

lemma scenario_total: "total_duration (foldl track profiler_new [10, 20, 20, 30]) = 80"
  unfolding total_duration_def scenario_timings by simp

lemma scenario_average: "average_duration (foldl track profiler_new [10, 20, 20, 30]) = Fin 20"
proof -
  have "fdiv (i64_to_double 80) (u64_to_double 4) = Fin 20"
    by (simp add: float_eval)
  then show ?thesis
    by (simp only: average_duration_fused scenario_total scenario_count)
qed

lemma scenario_by_call:
  "percentile (foldl track profiler_new [10, 20, 20, 30]) (Fin (1 / 2)) False = Some 20"
proof -
  have "by_call_scan 4 (Fin (1 / 2)) 0 [(10, 1), (20, 2), (30, 1)] = Some 20"
    by (simp add: by_call_scan_unfold float_eval del: by_call_scan.simps(2))
  with percentile_by_call_eval [OF scenario_timings, of "Fin (1 / 2)"] show ?thesis
    by (simp add: feq_def)
qed

lemma scenario_by_time:
  "percentile (foldl track profiler_new [10, 20, 20, 30]) (Fin (1 / 2)) True = Some 20"
proof -
  have "by_time_scan 10 20 (Fin (1 / 2)) [(10, 1), (20, 2), (30, 1)] = Some 20"
    by (simp add: by_time_scan_unfold float_eval del: by_time_scan.simps(2))
  with percentile_by_time_eval [OF scenario_timings, of "Fin (1 / 2)"] show ?thesis
    by simp
qed

lemma scenario_zero:
  "percentile (foldl track profiler_new [10, 20, 20, 30]) (Fin 0) False = Some 10"
  by (simp add: percentile_def Let_def feq_def scenario_timings del: foldl_Cons)

lemma scenario_keys: "keys (foldl track profiler_new [10, 20, 20, 30]) = {10, 20, 30}"
  unfolding keys_def scenario_timings by simp

section \<open>The claims\<close>

subsection \<open>C1: by-time percentile\<close>



text \<open>
  The position the loop computes is the normalized position only while
  \<open>largest - smallest\<close> fits in a signed 64-bit tick count. After records of 0 ns, of the
  least and of the greatest 64-bit duration, the difference wraps to \<open>-1\<close>, the loop gives
  0 ns the position \<open>2\<^sup>6\<^sup>3\<close>, and the percentile at \<open>p = 1.0\<close> is 0 ns, whose normalized
  position is \<open>0.5\<close>.
\<close>

lemma wide_range_timings:
  "timings (foldl track profiler_new [0, - 9223372036854775808, 9223372036854775807])
     = [(- 9223372036854775808, 1), (0, 1), (9223372036854775807, 1)]"
  by (simp add: track_def profiler_new_def)

lemma wide_range_scan:
  "by_time_scan (- 9223372036854775808) (- 1) (Fin 1)
     [(- 9223372036854775808, 1), (0, 1), (9223372036854775807, 1)] = Some 0"
  by (simp add: by_time_scan_unfold float_eval del: by_time_scan.simps(2))

lemma wide_range_example:
  "percentile (foldl track profiler_new [0, - 9223372036854775808, 9223372036854775807])
     (Fin 1) True = Some 0
   \<and> true_position (foldl track profiler_new [0, - 9223372036854775808, 9223372036854775807]) 0
       = Fin (1 / 2)
   \<and> \<not> position_accepted
         (foldl track profiler_new [0, - 9223372036854775808, 9223372036854775807]) (Fin 1) 0"
proof -
  let ?p = "foldl track profiler_new [0, - 9223372036854775808, 9223372036854775807]"
  have v: "fst (last [(- 9223372036854775808 :: 64 word, 1 :: 64 word), (0, 1),
        (9223372036854775807, 1)]) - fst (- 9223372036854775808 :: 64 word, 1 :: 64 word) = - 1"
    by simp
  have "by_time_scan (fst (- 9223372036854775808 :: 64 word, 1 :: 64 word))
      (fst (last [(- 9223372036854775808 :: 64 word, 1 :: 64 word), (0, 1),
        (9223372036854775807, 1)]) - fst (- 9223372036854775808 :: 64 word, 1 :: 64 word)) (Fin 1)
      [(- 9223372036854775808, 1), (0, 1), (9223372036854775807, 1)] = Some 0"
    by (simp only: v) (simp only: fst_conv wide_range_scan)
  from percentile_by_time_eval [OF wide_range_timings this]
  have r: "percentile ?p (Fin 1) True = Some 0" by simp
  have t: "true_position ?p 0 = Fin (1 / 2)"
    unfolding true_position_def smallest_def largest_def wide_range_timings
    by (simp add: rnd_unfold nearest_eval)
  have "\<not> position_accepted ?p (Fin 1) 0"
    unfolding position_accepted_def t by (simp add: float_eval)
  with r t show ?thesis by simp
qed



subsection \<open>C2: by-call percentile at zero\<close>

text \<open>
  C2: for every non-empty accumulator, \<open>percentile(0.0, by_time = false)\<close> returns the
  minimum recorded duration: a recorded duration that no recorded duration is below.
\<close>

theorem percentile_by_call_zero_minimum:
  assumes "ascending (timings p)" and "timings p \<noteq> []"
  shows "\<exists>d\<in>keys p. percentile p (Fin 0) False = Some d \<and> (\<forall>d'\<in>keys p. sint d \<le> sint d')"
proof -
  from assms(2) obtain x xs where xs: "timings p = x # xs"
    by (cases "timings p") auto
  then have "percentile p (Fin 0) False = Some (smallest p)"
    by (simp add: percentile_def Let_def feq_def smallest_def)
  moreover have "smallest p \<in> keys p"
    using xs by (simp add: smallest_def keys_def)
  ultimately show ?thesis
    using smallest_least [OF assms(1)] by blast
qed

theorem percentile_by_call_zero_minimum_witness:
  "ascending (timings (foldl track profiler_new [10, 20, 20, 30]))
   \<and> timings (foldl track profiler_new [10, 20, 20, 30]) \<noteq> []
   \<and> percentile (foldl track profiler_new [10, 20, 20, 30]) (Fin 0) False = Some 10
   \<and> 10 \<in> keys (foldl track profiler_new [10, 20, 20, 30])
   \<and> sint (10 :: 64 word) \<le> sint (30 :: 64 word)"
proof -
  let ?p = "foldl track profiler_new [10, 20, 20, 30]"
  have h1: "ascending (timings ?p)" by (rule ascending_new)
  have h2: "timings ?p \<noteq> []" unfolding scenario_timings by simp
  from percentile_by_call_zero_minimum [OF h1 h2]
  obtain d where d: "d \<in> keys ?p" "percentile ?p (Fin 0) False = Some d"
    "\<forall>d'\<in>keys ?p. sint d \<le> sint d'"
    by blast
  from d(2) have d10: "d = 10" by (simp only: scenario_zero option.inject)
  have "30 \<in> keys ?p" unfolding scenario_keys by simp
  with d(3) d10 have "sint (10 :: 64 word) \<le> sint (30 :: 64 word)" by blast
  with d d10 h1 h2 show ?thesis by blast
qed

subsection \<open>C3: by-call percentile at one\<close>

text \<open>
  C3, as stated, for every non-empty accumulator: \<open>percentile(1.0, by_time = false)\<close>
  returns the maximum recorded duration. It fails when the largest duration holds so few
  of the calls that the fraction reached before it is already within \<open>0.0005\<close> of \<open>1.0\<close>:
  after 2000 records of 10 ns and one of 20 ns, the cumulative fraction at 10 ns is
  \<open>2000 / 2001\<close>, the tolerance test accepts it, and 10 ns is returned although 20 ns was
  recorded.
\<close>

theorem percentile_by_call_one_counterexample:
  "percentile (foldl track profiler_new (replicate 2000 10 @ [20])) (Fin 1) False = Some 10
   \<and> 20 \<in> keys (foldl track profiler_new (replicate 2000 10 @ [20]))
   \<and> sint (10 :: 64 word) < sint (20 :: 64 word)"
proof -
  let ?q = "foldl track profiler_new (replicate 2000 10)"
  let ?p = "foldl track profiler_new (replicate 2000 10 @ [20])"
  have "timings ?q = [(10, of_nat 2000)]"
    by (rule replicate_track) simp
  then have q: "timings ?q = [(10, 2000)]"
    by simp
  have "timings (track ?q 20) = [(10, 2000), (20, 1)]"
    unfolding track_def q by simp
  then have t: "timings ?p = [(10, 2000), (20, 1)]"
    by (simp only: foldl_track_snoc)
  have "by_call_scan 2001 (Fin 1) 0 [(10, 2000), (20, 1)] = Some 10"
    by (simp add: by_call_scan_unfold float_eval del: by_call_scan.simps(2))
  with percentile_by_call_eval [OF t, of "Fin 1"]
  have "percentile ?p (Fin 1) False = Some 10"
    by (simp add: feq_def)
  moreover have "20 \<in> keys ?p"
    unfolding keys_def t by simp
  ultimately show ?thesis by simp
qed

text \<open>
  C3, amended: for every non-empty accumulator and every \<open>p\<close> that equals \<open>1.0\<close> within
  the by-call tolerance of \<open>0.0005\<close>, \<open>percentile(p, by_time = false)\<close> returns the first
  recorded duration, in ascending order, that passes the by-call test (its cumulative call
  fraction equals \<open>p\<close> within \<open>0.0005\<close>, or \<open>p\<close> lies strictly between the fraction before it
  and the fraction with it). The maximum recorded duration always passes, so a recorded
  duration is returned, and it is the maximum (\<open>largest\<close>, which no recorded duration
  exceeds) exactly when no smaller duration passes.
\<close>

theorem percentile_by_call_near_one:
  assumes "ascending (timings p)" and "count p \<noteq> 0"
    and "is_equal pct (Fin 1) by_call_tolerance"
  shows "\<exists>i<length (timings p).
           percentile p pct False = Some (fst (timings p ! i))
           \<and> by_call_accepts p pct i
           \<and> (\<forall>j<i. \<not> by_call_accepts p pct j)
           \<and> by_call_accepts p pct (length (timings p) - 1)
           \<and> (fst (timings p ! i) = largest p
                \<longleftrightarrow> (\<forall>j<length (timings p) - 1. \<not> by_call_accepts p pct j))
           \<and> (\<forall>d\<in>keys p. sint d \<le> sint (largest p))"
proof -
  let ?n = "length (timings p)"
  have ne: "timings p \<noteq> []"
    using assms(2) by (auto simp: count_def)
  then have n: "0 < ?n" by simp
  have "cumulative_calls p (Suc (?n - 1)) = count p"
    using n by (simp add: cumulative_calls_def count_sum)
  then have "cumulative_fraction p (Suc (?n - 1)) = Fin 1"
    using assms(2) by (simp add: cumulative_fraction_def u64_ratio_one)
  then have last_ok: "by_call_accepts p pct (?n - 1)"
    using assms(3) by (simp add: by_call_accepts_def)
  have "?n - 1 \<in> set [0..<?n]" using n by simp
  with last_ok have "find (by_call_accepts p pct) [0..<?n] \<noteq> None"
    by (simp only: find_None_iff not_not) blast
  then obtain i where f: "find (by_call_accepts p pct) [0..<?n] = Some i" by auto
  then have i: "i < ?n" "by_call_accepts p pct i" "\<forall>j<i. \<not> by_call_accepts p pct j"
    by (auto simp: find_Some_iff)
  have res: "percentile p pct False = Some (fst (timings p ! i))"
    using f by (simp add: percentile_by_call_find [OF near_one_nonzero [OF assms(3)]])
  have l: "largest p = fst (timings p ! (?n - 1))"
    using ne by (simp add: largest_def last_conv_nth)
  have "fst (timings p ! i) = largest p \<longleftrightarrow> i = ?n - 1"
  proof
    assume eq: "fst (timings p ! i) = largest p"
    show "i = ?n - 1"
    proof (rule ccontr)
      assume "i \<noteq> ?n - 1"
      with i(1) have "i < ?n - 1" by simp
      from ascending_nth_less [OF assms(1) this] n eq l show False by simp
    qed
  next
    assume "i = ?n - 1"
    with l show "fst (timings p ! i) = largest p" by simp
  qed
  also have "\<dots> \<longleftrightarrow> (\<forall>j<?n - 1. \<not> by_call_accepts p pct j)"
  proof
    assume "i = ?n - 1"
    with i(3) show "\<forall>j<?n - 1. \<not> by_call_accepts p pct j" by simp
  next
    assume a: "\<forall>j<?n - 1. \<not> by_call_accepts p pct j"
    show "i = ?n - 1"
    proof (rule ccontr)
      assume "i \<noteq> ?n - 1"
      with i(1) have "i < ?n - 1" by simp
      with a i(2) show False by simp
    qed
  qed
  finally have "fst (timings p ! i) = largest p
      \<longleftrightarrow> (\<forall>j<?n - 1. \<not> by_call_accepts p pct j)" .
  moreover have "\<forall>d\<in>keys p. sint d \<le> sint (largest p)"
    using largest_greatest [OF assms(1)] by blast
  ultimately show ?thesis
    using res i last_ok by blast
qed

theorem percentile_by_call_near_one_witness:
  "ascending (timings (foldl track profiler_new [10, 20]))
   \<and> count (foldl track profiler_new [10, 20]) \<noteq> 0
   \<and> is_equal (Fin 1) (Fin 1) by_call_tolerance
   \<and> percentile (foldl track profiler_new [10, 20]) (Fin 1) False = Some 20
   \<and> largest (foldl track profiler_new [10, 20]) = 20
   \<and> by_call_accepts (foldl track profiler_new [10, 20]) (Fin 1) 1"
proof -
  let ?p = "foldl track profiler_new [10, 20]"
  have t: "timings ?p = [(10, 1), (20, 1)]"
    by (simp add: track_def profiler_new_def)
  have h1: "ascending (timings ?p)" by (rule ascending_new)
  have h2: "count ?p \<noteq> 0" unfolding count_sum t by simp
  have h3: "is_equal (Fin 1) (Fin 1) by_call_tolerance" by (simp add: is_equal_def feq_def)
  have "by_call_scan 2 (Fin 1) 0 [(10, 1), (20, 1)] = Some 20"
    by (simp add: by_call_scan_unfold float_eval del: by_call_scan.simps(2))
  with percentile_by_call_eval [OF t, of "Fin 1"]
  have r: "percentile ?p (Fin 1) False = Some 20"
    by (simp add: feq_def)
  have l: "largest ?p = 20" unfolding largest_def t by simp
  have n: "length (timings ?p) - 1 = 1" unfolding t by simp
  from percentile_by_call_near_one [OF h1 h2 h3]
  have "by_call_accepts ?p (Fin 1) (length (timings ?p) - 1)" by blast
  then have "by_call_accepts ?p (Fin 1) 1" by (simp only: n)
  with h1 h2 h3 r l show ?thesis by blast
qed

subsection \<open>C4: count\<close>

text \<open>
  C4: after any finite sequence of \<open>record(duration)\<close> calls on a fresh accumulator,
  \<open>count()\<close> is the length of the sequence, duplicates counted: as 64-bit unsigned
  numbers they are equal, and \<open>count()\<close> reads as exactly the length for every sequence of
  fewer than \<open>2\<^sup>6\<^sup>4\<close> calls.
\<close>

theorem count_equals_number_of_calls:
  "count (foldl track profiler_new ds) = of_nat (length ds)
   \<and> unat (count (foldl track profiler_new ds)) = length ds mod 2 ^ 64
   \<and> (length ds < 2 ^ 64 \<longrightarrow> unat (count (foldl track profiler_new ds)) = length ds)"
proof -
  have c: "count (foldl track profiler_new ds) = of_nat (length ds)"
    by (simp add: count_foldl_track count_new)
  have "unat (of_nat (length ds) :: 64 word) = length ds mod 2 ^ 64"
    by (simp add: unat_of_nat)
  with c show ?thesis by simp
qed

theorem count_equals_number_of_calls_witness:
  "length [10, 20, 20, 30 :: nanoseconds] < 2 ^ 64
   \<and> unat (count (foldl track profiler_new [10, 20, 20, 30])) = 4"
proof -
  have h: "length [10, 20, 20, 30 :: nanoseconds] < 2 ^ 64" by simp
  with count_equals_number_of_calls [of "[10, 20, 20, 30]"]
  have "unat (count (foldl track profiler_new [10, 20, 20, 30]))
      = length [10, 20, 20, 30 :: nanoseconds]"
    by blast
  with h show ?thesis by simp
qed

subsection \<open>C5: average\<close>

text \<open>
  C5: \<open>average_duration()\<close> is \<open>total_duration()\<close> divided by \<open>count()\<close>, both converted to
  binary64 and divided there (in particular whenever \<open>count() > 0\<close>); on an accumulator
  without samples the division is \<open>0.0 / 0.0\<close> and the result is a NaN.
\<close>

theorem average_duration_is_total_over_count:
  "average_duration p = fdiv (i64_to_double (total_duration p)) (u64_to_double (count p))
   \<and> average_duration profiler_new = NaN"
proof -
  have "average_duration profiler_new = fdiv (Fin 0) (Fin 0)"
    unfolding average_duration_fused
    by (simp add: total_duration_def count_def profiler_new_def i64_to_double_zero
        u64_to_double_zero)
  then show ?thesis
    by (simp add: average_duration_fused)
qed

subsection \<open>C6: one entry per distinct duration\<close>

text \<open>
  C6: after any sequence \<open>ds\<close> of record calls on a fresh accumulator, the keys of the
  mapping are pairwise distinct and are exactly the durations that occur in \<open>ds\<close>, and
  the entry of each holds the number of its occurrences (as a 64-bit count). Recording
  one duration \<open>n > 0\<close> times gives the single entry with count \<open>n\<close>; recording a duration
  that was seen before leaves the keys as they are and adds one to its count.
\<close>

theorem one_entry_per_distinct_duration:
  "distinct (map fst (timings (foldl track profiler_new ds)))
   \<and> keys (foldl track profiler_new ds) = set ds
   \<and> (\<forall>d\<in>set ds. map_of (timings (foldl track profiler_new ds)) d
          = Some (of_nat (count_list ds d)))
   \<and> (0 < n \<longrightarrow> timings (foldl track profiler_new (replicate n d)) = [(d, of_nat n)])
   \<and> (d \<in> set ds \<longrightarrow>
        map fst (timings (track (foldl track profiler_new ds) d))
          = map fst (timings (foldl track profiler_new ds))
        \<and> map_of (timings (track (foldl track profiler_new ds) d)) d
          = Some (of_nat (count_list ds d) + 1))"
proof -
  let ?p = "foldl track profiler_new ds"
  have 1: "distinct (map fst (timings ?p))"
    using ascending_new by (rule ascending_distinct)
  have "keys ?p = dom (map_of (timings ?p))"
    by (simp add: keys_def dom_map_of_conv_image_fst)
  also have "\<dots> = set ds"
    by (auto simp: dom_def map_of_foldl_track)
  finally have 2: "keys ?p = set ds" .
  have 3: "\<forall>d\<in>set ds. map_of (timings ?p) d = Some (of_nat (count_list ds d))"
    by (simp add: map_of_foldl_track)
  have 4: "0 < n \<longrightarrow> timings (foldl track profiler_new (replicate n d)) = [(d, of_nat n)]"
    by (simp add: replicate_track)
  have 5: "map fst (timings (track ?p d)) = map fst (timings ?p)
      \<and> map_of (timings (track ?p d)) d = Some (of_nat (count_list ds d) + 1)"
    if "d \<in> set ds"
  proof -
    from that have m: "map_of (timings ?p) d = Some (of_nat (count_list ds d))"
      by (simp add: map_of_foldl_track)
    then have "timings (track ?p d) = map_incr d (timings ?p)"
      by (simp add: track_def)
    with m show ?thesis
      by (simp add: keys_map_incr map_of_map_incr)
  qed
  from 1 2 3 4 5 show ?thesis by blast
qed

theorem one_entry_per_distinct_duration_witness:
  "(20 :: nanoseconds) \<in> set [10, 20, 20, 30] \<and> (0 :: nat) < 3
   \<and> map_of (timings (foldl track profiler_new [10, 20, 20, 30])) 20 = Some 2
   \<and> timings (foldl track profiler_new (replicate 3 20)) = [(20, 3)]
   \<and> map fst (timings (track (foldl track profiler_new [10, 20, 20, 30]) 20))
        = map fst (timings (foldl track profiler_new [10, 20, 20, 30]))
   \<and> map_of (timings (track (foldl track profiler_new [10, 20, 20, 30]) 20)) 20 = Some 3"
proof -
  let ?ds = "[10, 20, 20, 30 :: nanoseconds]"
  have h1: "(20 :: nanoseconds) \<in> set ?ds" by simp
  have h2: "(0 :: nat) < 3" by simp
  have c: "(of_nat (count_list ?ds 20) :: 64 word) = 2" by simp
  note w = one_entry_per_distinct_duration [of ?ds 3 20]
  from w h1 have "map_of (timings (foldl track profiler_new ?ds)) 20
      = Some (of_nat (count_list ?ds 20))"
    by blast
  then have a: "map_of (timings (foldl track profiler_new ?ds)) 20 = Some 2"
    by (simp only: c)
  from w h2 have "timings (foldl track profiler_new (replicate 3 20)) = [(20, of_nat 3)]"
    by blast
  then have b: "timings (foldl track profiler_new (replicate 3 20)) = [(20, 3)]"
    by (simp only: of_nat_numeral)
  from w h1 have "map fst (timings (track (foldl track profiler_new ?ds) 20))
        = map fst (timings (foldl track profiler_new ?ds))
      \<and> map_of (timings (track (foldl track profiler_new ?ds) 20)) 20
        = Some (of_nat (count_list ?ds 20) + 1)"
    by blast
  then have d: "map fst (timings (track (foldl track profiler_new ?ds) 20))
        = map fst (timings (foldl track profiler_new ?ds))"
    and e: "map_of (timings (track (foldl track profiler_new ?ds) 20)) 20 = Some 3"
    by (simp_all only: c) simp
  from h1 h2 a b d e show ?thesis by blast
qed

subsection \<open>C7: the scenario\<close>

text \<open>
  C7: after recording 10 ns, 20 ns, 20 ns and 30 ns into a fresh accumulator, \<open>count()\<close> is
  4, \<open>total_duration()\<close> is 80 ns, \<open>average_duration()\<close> is \<open>20.0\<close>, and the percentile at
  \<open>0.5\<close> is 20 ns both by call and by time.
\<close>

theorem scenario_10_20_20_30:
  "count (foldl track profiler_new [10, 20, 20, 30]) = 4
   \<and> total_duration (foldl track profiler_new [10, 20, 20, 30]) = 80
   \<and> average_duration (foldl track profiler_new [10, 20, 20, 30]) = Fin 20
   \<and> percentile (foldl track profiler_new [10, 20, 20, 30]) (Fin (1 / 2)) False = Some 20
   \<and> percentile (foldl track profiler_new [10, 20, 20, 30]) (Fin (1 / 2)) True = Some 20"
  by (intro conjI) (rule scenario_count scenario_total scenario_average scenario_by_call
      scenario_by_time)+

subsection \<open>C8: the not-found sentinel\<close>

text \<open>
  C8: for every non-empty accumulator and every \<open>p\<close>, when the scan of the chosen mode
  reaches the end of the ascending durations and none has passed its test, \<open>percentile\<close>
  returns the sentinel \<open>-1\<close> ns. By time the scan tests every recorded duration; by call it
  runs when \<open>p\<close> is not \<open>0.0\<close> and tests every position of the ascending sequence.
\<close>

theorem percentile_not_found_sentinel:
  assumes "timings p \<noteq> []"
    and "by_time \<Longrightarrow> \<forall>d\<in>keys p. \<not> by_time_accepts p pct d"
    and "\<not> by_time \<Longrightarrow>
           \<not> feq pct (Fin 0) \<and> (\<forall>i<length (timings p). \<not> by_call_accepts p pct i)"
  shows "percentile p pct by_time = Some (- 1)"
proof (cases by_time)
  case True
  with assms(2) have "find (\<lambda>kv. by_time_accepts p pct (fst kv)) (timings p) = None"
    by (auto simp: find_None_iff keys_def)
  with True show ?thesis
    by (simp add: percentile_by_time_find [OF assms(1)])
next
  case False
  with assms(3) have nz: "\<not> feq pct (Fin 0)"
    and "find (by_call_accepts p pct) [0..<length (timings p)] = None"
    by (auto simp: find_None_iff)
  with False show ?thesis
    by (simp add: percentile_by_call_find [OF nz])
qed

theorem percentile_not_found_sentinel_witness:
  "timings (foldl track profiler_new [10]) \<noteq> []
   \<and> keys (foldl track profiler_new [10]) = {10}
   \<and> \<not> by_time_accepts (foldl track profiler_new [10]) (Fin (1 / 2)) 10
   \<and> percentile (foldl track profiler_new [10]) (Fin (1 / 2)) True = Some (- 1)
   \<and> \<not> feq (Fin 2) (Fin 0)
   \<and> length (timings (foldl track profiler_new [10])) = 1
   \<and> \<not> by_call_accepts (foldl track profiler_new [10]) (Fin 2) 0
   \<and> percentile (foldl track profiler_new [10]) (Fin 2) False = Some (- 1)"
proof -
  let ?p = "foldl track profiler_new [10]"
  have t: "timings ?p = [(10, 1)]"
    by (simp add: track_def profiler_new_def)
  have h1: "timings ?p \<noteq> []" unfolding t by simp
  have k: "keys ?p = {10}" unfolding keys_def t by simp
  have "normalized_position ?p 10 = NaN"
    unfolding normalized_position_def smallest_def largest_def t
    by (simp add: i64_to_double_zero)
  then have a: "\<not> by_time_accepts ?p (Fin (1 / 2)) 10"
    by (simp add: by_time_accepts_def fge_def fle_def feq_def)
  then have h2: "True \<Longrightarrow> \<forall>d\<in>keys ?p. \<not> by_time_accepts ?p (Fin (1 / 2)) d"
    unfolding k by simp
  have r1: "percentile ?p (Fin (1 / 2)) True = Some (- 1)"
    by (rule percentile_not_found_sentinel [OF h1 h2]) simp_all
  have z: "\<not> feq (Fin 2) (Fin 0)" by (simp add: feq_def)
  have n: "length (timings ?p) = 1" unfolding t by simp
  have "cumulative_fraction ?p 0 = Fin 0" "cumulative_fraction ?p (Suc 0) = Fin 1"
    unfolding cumulative_fraction_def cumulative_calls_def count_sum t
    by (simp_all add: float_eval)
  then have b: "\<not> by_call_accepts ?p (Fin 2) 0"
    by (simp add: by_call_accepts_def float_eval)
  with z n have h3: "\<not> False \<Longrightarrow>
      \<not> feq (Fin 2) (Fin 0) \<and> (\<forall>i<length (timings ?p). \<not> by_call_accepts ?p (Fin 2) i)"
    by simp
  have r2: "percentile ?p (Fin 2) False = Some (- 1)"
    by (rule percentile_not_found_sentinel [OF h1 _ h3]) simp_all
  from h1 k a r1 z n b r2 show ?thesis by blast
qed

subsection \<open>C9: reparent\<close>

text \<open>
  C9: \<open>reparent(new_accumulator)\<close> leaves the tracker as it was, for every tracker and
  every argument: the stored accumulator reference is unchanged, so the release that
  follows reports to the original accumulator, and to none after a cancel.
\<close>

theorem reparent_no_op:
  "reparent inst new_parent = inst
   \<and> parent (reparent inst new_parent) = parent inst
   \<and> instance_release (reparent inst new_parent) now s = instance_release inst now s
   \<and> instance_release (reparent (cancel inst) new_parent) now s = s"
  by (simp add: reparent_def instance_release_def cancel_def)

subsection \<open>C10: a single distinct duration\<close>

text \<open>
  C10: on an accumulator whose mapping holds exactly one distinct duration, with any
  occurrence count, \<open>percentile(p, by_time = true)\<close> returns the sentinel \<open>-1\<close> ns for every
  \<open>p\<close>: \<open>largest - smallest\<close> is zero, the normalized position is \<open>0 / 0\<close>, a NaN, and both
  acceptance conditions are false for the only entry.
\<close>

theorem percentile_single_duration_sentinel:
  "percentile \<lparr>timings = [(d, c)]\<rparr> pct True = Some (- 1)
   \<and> normalized_position \<lparr>timings = [(d, c)]\<rparr> d = NaN
   \<and> is_equal NaN pct by_time_tolerance = False
   \<and> fgt NaN pct = False"
  by (simp add: single_entry_percentile normalized_position_def smallest_def largest_def
      i64_to_double_zero is_equal_NaN fgt_NaN)

end
